theory Spec2Isabelle
  imports Main "HOL-Library.Sublist"
begin

unbundle bit_operations_syntax

section \<open>Strings\<close>

text \<open>
  A JavaScript string is modelled as a \<^typ>\<open>string\<close>: a list of characters with codes
  below 256, which stand for the code units of the same value. The white space of
  \<^verbatim>\<open>String.prototype.trim\<close> and of the regular expression class \<^verbatim>\<open>\s\<close> is the same set of
  characters; among the codes below 256 it is tab, line feed, vertical tab, form feed,
  carriage return, space and the no-break space U+00A0. The line terminators, which \<^verbatim>\<open>.\<close>
  does not match, are line feed and carriage return there.
\<close>

definition is_space :: "char \<Rightarrow> bool" where
  "is_space c = (c = CHR 0x09 \<or> c = CHR 0x0A \<or> c = CHR 0x0B \<or> c = CHR 0x0C
     \<or> c = CHR 0x0D \<or> c = CHR 0x20 \<or> c = CHR 0xA0)"

definition is_line_terminator :: "char \<Rightarrow> bool" where
  "is_line_terminator c = (c = CHR 0x0A \<or> c = CHR 0x0D)"

text \<open>\<^verbatim>\<open>s.trim()\<close>\<close>

definition trim :: "string \<Rightarrow> string" where
  "trim s = rev (dropWhile is_space (rev (dropWhile is_space s)))"

text \<open>\<^verbatim>\<open>s.split('\n')\<close>: the pieces between the separators; the empty string gives one
  empty piece.\<close>

fun split_char :: "char \<Rightarrow> string \<Rightarrow> string list" where
  "split_char sep [] = [[]]"
| "split_char sep (c # cs) =
     (if c = sep then [] # split_char sep cs
      else (case split_char sep cs of
              w # ws \<Rightarrow> (c # w) # ws
            | [] \<Rightarrow> [[c]]))"

text \<open>\<^verbatim>\<open>s.includes('->')\<close> and \<^verbatim>\<open>s.split('->')\<close>\<close>

fun includes_arrow :: "string \<Rightarrow> bool" where
  "includes_arrow (c # d # cs) =
     ((c = CHR ''-'' \<and> d = CHR ''>'') \<or> includes_arrow (d # cs))"
| "includes_arrow _ = False"

fun split_arrow :: "string \<Rightarrow> string list" where
  "split_arrow (c # d # cs) =
     (if c = CHR ''-'' \<and> d = CHR ''>'' then [] # split_arrow cs
      else (case split_arrow (d # cs) of
              w # ws \<Rightarrow> (c # w) # ws
            | [] \<Rightarrow> [[c]]))"
| "split_arrow s = [s]"

section \<open>config/types.ts\<close>

text \<open>The enum \<^verbatim>\<open>FileState\<close>: M = 1, A = 2, R = 4, D = 8, combined with bitwise or.\<close>

type_synonym FileState = nat

definition FileState_M :: FileState where "FileState_M = 1"
definition FileState_A :: FileState where "FileState_A = 2"
definition FileState_R :: FileState where "FileState_R = 4"
definition FileState_D :: FileState where "FileState_D = 8"

record FileChange =
  path :: string
  state :: FileState
  diff :: "string option"

record AICommit =
  title :: string
  changes :: "string list"

record GeneratorValidationResult =
  valid :: bool
  duplicateFiles :: "string list"
  missingFiles :: "string list"
  invalidFiles :: "string list"

section \<open>commit/gitStatusParser.ts\<close>

subsection \<open>The status-line pattern\<close>

text \<open>
  \<^verbatim>\<open>/^\s*([MARDU]{1,2}|\?\?)\s{1,2}(.+)$/\<close> is matched by backtracking. Each part of the
  pattern is a function from the rest of the line to the list of its possible matches, in
  the order in which the matcher tries them (a greedy quantifier tries the longest first,
  an alternation its left branch first); the match of the whole pattern is the first
  combination that succeeds.
\<close>

definition is_MARDU :: "char \<Rightarrow> bool" where
  "is_MARDU c = (c = CHR ''M'' \<or> c = CHR ''A'' \<or> c = CHR ''R'' \<or> c = CHR ''D''
     \<or> c = CHR ''U'')"

text \<open>\<^verbatim>\<open>\s*\<close>: what is left after the white space taken, most white space first.\<close>

fun ws_star :: "string \<Rightarrow> string list" where
  "ws_star [] = [[]]"
| "ws_star (c # cs) = (if is_space c then ws_star cs @ [c # cs] else [c # cs])"

text \<open>\<^verbatim>\<open>([MARDU]{1,2}|\?\?)\<close>: the token captured and what is left.\<close>

definition status_token :: "string \<Rightarrow> (string \<times> string) list" where
  "status_token s =
     (case s of c # d # r \<Rightarrow> if is_MARDU c \<and> is_MARDU d then [([c, d], r)] else []
              | _ \<Rightarrow> [])
   @ (case s of c # r \<Rightarrow> if is_MARDU c then [([c], r)] else []
              | _ \<Rightarrow> [])
   @ (case s of c # d # r \<Rightarrow> if c = CHR ''?'' \<and> d = CHR ''?'' then [([c, d], r)] else []
              | _ \<Rightarrow> [])"

text \<open>\<^verbatim>\<open>\s{1,2}\<close>\<close>

definition ws_1_2 :: "string \<Rightarrow> string list" where
  "ws_1_2 s =
     (case s of c # d # r \<Rightarrow> if is_space c \<and> is_space d then [r] else []
              | _ \<Rightarrow> [])
   @ (case s of c # r \<Rightarrow> if is_space c then [r] else []
              | _ \<Rightarrow> [])"

text \<open>\<^verbatim>\<open>(.+)$\<close>: one character or more, none of them a line terminator, up to the end
  of the input.\<close>

definition dot_plus_end :: "string \<Rightarrow> string list" where
  "dot_plus_end s = (if s \<noteq> [] \<and> list_all (\<lambda>c. \<not> is_line_terminator c) s then [s] else [])"

text \<open>All the matches of the whole pattern, in the order of the search.\<close>

definition statusRegex_matches :: "string \<Rightarrow> (string \<times> string) list" where
  "statusRegex_matches line =
     concat (map (\<lambda>r1.
       concat (map (\<lambda>(statusCode, r2).
         concat (map (\<lambda>r3.
           map (\<lambda>filePath. (statusCode, filePath)) (dot_plus_end r3))
         (ws_1_2 r2)))
       (status_token r1)))
     (ws_star line))"

text \<open>\<^verbatim>\<open>line.match(statusRegex)\<close>: the two captured groups of the first match.\<close>

definition statusRegex :: "string \<Rightarrow> (string \<times> string) option" where
  "statusRegex line = (case statusRegex_matches line of [] \<Rightarrow> None | m # _ \<Rightarrow> Some m)"

subsection \<open>handleRenamedFilePath, getFileState\<close>

definition handleRenamedFilePath :: "string \<Rightarrow> string" where
  "handleRenamedFilePath filePath =
     (if includes_arrow filePath
      then (case split_arrow filePath of
              _ # newPath # _ \<Rightarrow> trim newPath
            | _ \<Rightarrow> filePath)
      else filePath)"

text \<open>
  \<^verbatim>\<open>FileState[char]\<close>: the value of the member named by the character. The enum object
  also maps the keys 1, 2, 4 and 8 back to the member names; or-ing such a name into the
  accumulator adds no bit, so these keys are given the value 0. Any other character is
  \<^verbatim>\<open>undefined\<close>.
\<close>

definition FileState_of :: "char \<Rightarrow> nat option" where
  "FileState_of char =
     (if char = CHR ''M'' then Some FileState_M
      else if char = CHR ''A'' then Some FileState_A
      else if char = CHR ''R'' then Some FileState_R
      else if char = CHR ''D'' then Some FileState_D
      else if char = CHR ''1'' \<or> char = CHR ''2'' \<or> char = CHR ''4'' \<or> char = CHR ''8''
        then Some 0
      else None)"

definition getFileState :: "string \<Rightarrow> FileState" where
  "getFileState statusCode =
     fold (\<lambda>char acc. case FileState_of char of
                         Some stateValue \<Rightarrow> acc OR stateValue
                       | None \<Rightarrow> acc)
       statusCode 0"

subsection \<open>parseGitStatusOutput\<close>

text \<open>
  What the parser does besides computing its result is recorded in a log: the warnings
  and errors it reports and the diffs it requests from \<^verbatim>\<open>getFileDiff\<close>, which is a
  parameter of the model. \<^verbatim>\<open>process.exit(1)\<close> ends the run: no list is returned.
\<close>

datatype effect =
    LogUntracked string
  | LogUnmerged string
  | LogResolveConflict
  | LogUnparseable string
  | GetFileDiff string

datatype 'a outcome = ProcessExit nat | Return 'a

fun parseLines ::
  "(string \<Rightarrow> string option) \<Rightarrow> string list \<Rightarrow> FileChange list \<Rightarrow> effect list
     \<Rightarrow> FileChange list outcome \<times> effect list" where
  "parseLines getFileDiff [] fileChanges log = (Return fileChanges, log)"
| "parseLines getFileDiff (line # statusLines) fileChanges log =
     (if trim line = [] then parseLines getFileDiff statusLines fileChanges log
      else (case statusRegex line of
        Some (statusCode, filePath) \<Rightarrow>
          if statusCode = ''??''
          then parseLines getFileDiff statusLines fileChanges (log @ [LogUntracked filePath])
          else if CHR ''U'' \<in> set statusCode
          then (ProcessExit 1, log @ [LogUnmerged filePath, LogResolveConflict])
          else
            let trimmedFilePath = trim filePath;
                fullFilePath = handleRenamedFilePath trimmedFilePath;
                fileState = getFileState statusCode;
                diff = (if fileState \<noteq> FileState_D then getFileDiff fullFilePath else None);
                log' = (if fileState \<noteq> FileState_D then log @ [GetFileDiff fullFilePath]
                        else log);
                fileChange = \<lparr>path = trimmedFilePath, state = fileState, diff = diff\<rparr>
            in parseLines getFileDiff statusLines (fileChanges @ [fileChange]) log'
      | None \<Rightarrow>
          parseLines getFileDiff statusLines fileChanges (log @ [LogUnparseable line])))"

definition parseGitStatusOutput ::
  "(string \<Rightarrow> string option) \<Rightarrow> string \<Rightarrow> FileChange list outcome \<times> effect list" where
  "parseGitStatusOutput getFileDiff statusOutput =
     parseLines getFileDiff (split_char CHR 0x0A statusOutput) [] []"

section \<open>commit/commitGenerator.ts: validateAIOutput\<close>

text \<open>\<^verbatim>\<open>xs.indexOf(x)\<close>: the first index of \<open>x\<close>, or -1.\<close>

fun indexOf :: "'a list \<Rightarrow> 'a \<Rightarrow> int" where
  "indexOf [] x = - 1"
| "indexOf (y # ys) x =
     (if y = x then 0 else (let i = indexOf ys x in if i < 0 then - 1 else i + 1))"

text \<open>\<^verbatim>\<open>xs.filter((x, index) => p(x, index))\<close>\<close>

definition filter_indexed :: "('a \<Rightarrow> nat \<Rightarrow> bool) \<Rightarrow> 'a list \<Rightarrow> 'a list" where
  "filter_indexed p xs = map fst (filter (\<lambda>(x, index). p x index) (zip xs [0..<length xs]))"

text \<open>\<^verbatim>\<open>[...new Set(xs)]\<close>: a set keeps its elements in the order of their first
  insertion.\<close>

definition newSet :: "'a list \<Rightarrow> 'a list" where
  "newSet xs = fold (\<lambda>x s. if x \<in> set s then s else s @ [x]) xs []"

definition validateAIOutput ::
  "AICommit list \<Rightarrow> FileChange list \<Rightarrow> GeneratorValidationResult" where
  "validateAIOutput parsedJson fileChanges =
     (let allFilePaths = map path fileChanges;
          aiFilePaths = concat (map changes parsedJson);
          duplicates =
            filter_indexed (\<lambda>file index. indexOf aiFilePaths file \<noteq> int index) aiFilePaths;
          missing = filter (\<lambda>file. file \<notin> set aiFilePaths) allFilePaths;
          invalid = filter (\<lambda>file. file \<notin> set allFilePaths) aiFilePaths
      in \<lparr>valid = (length duplicates = 0 \<and> length missing = 0 \<and> length invalid = 0),
          duplicateFiles = (if length duplicates > 0 then newSet duplicates else []),
          missingFiles = (if length missing > 0 then missing else []),
          invalidFiles = (if length invalid > 0 then newSet invalid else [])\<rparr>)"

section \<open>commitChanges: the repair of the proposed commits\<close>

text \<open>
  The callback of the first \<^verbatim>\<open>filter\<close> reads and updates the set \<^verbatim>\<open>committedFiles\<close>;
  the model passes the set along and returns it with the paths kept.
\<close>

fun filterChanges ::
  "string list \<Rightarrow> string list \<Rightarrow> string list \<Rightarrow> string list \<times> string list" where
  "filterChanges dups committedFiles [] = ([], committedFiles)"
| "filterChanges dups committedFiles (filePath # rest) =
     (if filePath \<notin> set dups
      then (case filterChanges dups committedFiles rest of
              (kept, committedFiles') \<Rightarrow> (filePath # kept, committedFiles'))
      else if filePath \<in> set committedFiles
      then filterChanges dups committedFiles rest
      else (case filterChanges dups (committedFiles @ [filePath]) rest of
              (kept, committedFiles') \<Rightarrow> (filePath # kept, committedFiles')))"

text \<open>
  \<^verbatim>\<open>for (let i = filesToCommit.length - 1; i >= 0; i--)\<close>: the first argument of the
  loop is \<open>i + 1\<close>, so the loop starts at the length of the list and stops at 0.
\<close>

fun dedupLoop ::
  "string list \<Rightarrow> nat \<Rightarrow> AICommit list \<Rightarrow> string list \<Rightarrow> AICommit list" where
  "dedupLoop dups 0 commits committedFiles = commits"
| "dedupLoop dups (Suc i) commits committedFiles =
     (case filterChanges dups committedFiles (changes (commits ! i)) of
        (kept, committedFiles') \<Rightarrow>
          dedupLoop dups i (commits[i := (commits ! i)\<lparr>changes := kept\<rparr>]) committedFiles')"

text \<open>Lines 323 to 340: the resolution of duplicates.\<close>

definition resolveDuplicates :: "AICommit list \<Rightarrow> GeneratorValidationResult \<Rightarrow> AICommit list" where
  "resolveDuplicates commits validationResult =
     (if length (duplicateFiles validationResult) > 0
      then dedupLoop (duplicateFiles validationResult) (length commits) commits []
      else commits)"

text \<open>Lines 342 to 347: the removal of invalid files.\<close>

definition removeInvalid :: "AICommit list \<Rightarrow> GeneratorValidationResult \<Rightarrow> AICommit list" where
  "removeInvalid commits validationResult =
     (if length (invalidFiles validationResult) > 0
      then map (\<lambda>commit. commit\<lparr>changes :=
                 filter (\<lambda>filePath. filePath \<notin> set (invalidFiles validationResult))
                   (changes commit)\<rparr>) commits
      else commits)"

text \<open>The list \<^verbatim>\<open>filesToCommit\<close> when the commits start (line 350).\<close>

definition filesToCommit :: "AICommit list \<Rightarrow> GeneratorValidationResult \<Rightarrow> AICommit list" where
  "filesToCommit aiCommits validationResult =
     (if \<not> valid validationResult
      then removeInvalid (resolveDuplicates aiCommits validationResult) validationResult
      else aiCommits)"

text \<open>\<^verbatim>\<open>commitChanges\<close>: the calls of \<^verbatim>\<open>commitFiles(title, changes)\<close> it makes, in order.\<close>

definition commitChanges ::
  "AICommit list \<Rightarrow> GeneratorValidationResult \<Rightarrow> (string \<times> string list) list" where
  "commitChanges aiCommits validationResult =
     map (\<lambda>commit. (title commit, changes commit)) (filesToCommit aiCommits validationResult)"

section \<open>Notions used in the statements and proofs\<close>

text \<open>The diff collaborator of the repository's parser tests, which always answers
  \<^verbatim>\<open>'diff content'\<close>.\<close>

definition mockFileDiff :: "string \<Rightarrow> string option" where
  "mockFileDiff filePath = Some ''diff content''"

text \<open>The kinds of non-blank status lines, as the branches of the parser's loop tell them
  apart.\<close>

definition unmerged_line :: "string \<Rightarrow> bool" where
  "unmerged_line line =
     (trim line \<noteq> [] \<and>
      (case statusRegex line of
         Some (statusCode, filePath) \<Rightarrow> statusCode \<noteq> ''??'' \<and> CHR ''U'' \<in> set statusCode
       | None \<Rightarrow> False))"

definition record_line :: "string \<Rightarrow> bool" where
  "record_line line =
     (trim line \<noteq> [] \<and>
      (case statusRegex line of
         Some (statusCode, filePath) \<Rightarrow> statusCode \<noteq> ''??'' \<and> CHR ''U'' \<notin> set statusCode
       | None \<Rightarrow> False))"

definition unparseable_line :: "string \<Rightarrow> bool" where
  "unparseable_line line = (trim line \<noteq> [] \<and> statusRegex line = None)"

fun is_unparseable_report :: "effect \<Rightarrow> bool" where
  "is_unparseable_report (LogUnparseable line) = True"
| "is_unparseable_report _ = False"

text \<open>
  One turn of the parser's loop, as a value: the line is skipped, a record is pushed, or the
  process stops; each with what is logged and requested in that turn. The lemma
  \<open>parseLines_Cons\<close> shows that the loop does exactly this.
\<close>

datatype step = Skip "effect list" | Push FileChange "effect list" | Stop nat "effect list"

definition lineStep :: "(string \<Rightarrow> string option) \<Rightarrow> string \<Rightarrow> step" where
  "lineStep getFileDiff line =
     (if trim line = [] then Skip []
      else (case statusRegex line of
        Some (statusCode, filePath) \<Rightarrow>
          if statusCode = ''??'' then Skip [LogUntracked filePath]
          else if CHR ''U'' \<in> set statusCode
          then Stop 1 [LogUnmerged filePath, LogResolveConflict]
          else Push \<lparr>path = trim filePath, state = getFileState statusCode,
                      diff = (if getFileState statusCode \<noteq> FileState_D
                              then getFileDiff (handleRenamedFilePath (trim filePath))
                              else None)\<rparr>
                 (if getFileState statusCode \<noteq> FileState_D
                  then [GetFileDiff (handleRenamedFilePath (trim filePath))] else [])
      | None \<Rightarrow> Skip [LogUnparseable line]))"

fun step_records :: "step \<Rightarrow> FileChange list" where
  "step_records (Push r e) = [r]"
| "step_records _ = []"

fun step_effects :: "step \<Rightarrow> effect list" where
  "step_effects (Skip e) = e"
| "step_effects (Push r e) = e"
| "step_effects (Stop n e) = e"

definition records_of :: "(string \<Rightarrow> string option) \<Rightarrow> string list \<Rightarrow> FileChange list" where
  "records_of getFileDiff statusLines =
     concat (map (\<lambda>line. step_records (lineStep getFileDiff line)) statusLines)"

definition effects_of :: "(string \<Rightarrow> string option) \<Rightarrow> string list \<Rightarrow> effect list" where
  "effects_of getFileDiff statusLines =
     concat (map (\<lambda>line. step_effects (lineStep getFileDiff line)) statusLines)"

text \<open>Two status reports: one with a line that does not match the pattern, one with an
  unmerged file.\<close>

definition status_with_unparseable :: string where
  "status_with_unparseable = ''M  file1.txt'' @ [CHR 0x0A] @ ''X  invalid-file.txt''"

definition status_with_unmerged :: string where
  "status_with_unmerged =
     ''M  file1.txt'' @ [CHR 0x0A] @ ''UU file2.txt'' @ [CHR 0x0A] @ ''D  file4.txt''"

text \<open>The paths of all groups, one after the other.\<close>

definition allChanges :: "AICommit list \<Rightarrow> string list" where
  "allChanges commits = concat (map changes commits)"

text \<open>The occurrences of an element after its first one, by recursion on the list: the
  elements at which \<^verbatim>\<open>indexOf\<close> differs from the index.\<close>

fun later_occurrences :: "'a list \<Rightarrow> 'a list \<Rightarrow> 'a list" where
  "later_occurrences seen [] = []"
| "later_occurrences seen (x # xs) =
     (if x \<in> set seen then x # later_occurrences (seen @ [x]) xs
      else later_occurrences (seen @ [x]) xs)"

text \<open>
  The loop of the duplicate resolution by recursion on the list of commits: the later
  commits are filtered first, and the set of committed files they leave is passed to the
  commit at the head. The lemma \<open>dedupLoop_dedupFrom\<close> shows that the loop over the indices
  computes the same.
\<close>

fun dedupFrom ::
  "string list \<Rightarrow> string list \<Rightarrow> AICommit list \<Rightarrow> AICommit list \<times> string list" where
  "dedupFrom dups committedFiles [] = ([], committedFiles)"
| "dedupFrom dups committedFiles (commit # later) =
     (case dedupFrom dups committedFiles later of
        (later', committed1) \<Rightarrow>
          (case filterChanges dups committed1 (changes commit) of
             (kept, committed2) \<Rightarrow> (commit\<lparr>changes := kept\<rparr> # later', committed2)))"

text \<open>A repaired group has the title of the original one, and its paths are paths of the
  original in their order.\<close>

definition trimmed_group :: "AICommit \<Rightarrow> AICommit \<Rightarrow> bool" where
  "trimmed_group repaired original =
     (title repaired = title original \<and> subseq (changes repaired) (changes original))"

text \<open>The proposal of the spec's scenario, groups A and B over the files f1, f2, f3, and three
  more proposals: one that names an unknown file in two groups, one that names an unknown
  file and misses a file, and one that is valid.\<close>

definition commitA :: AICommit where "commitA = \<lparr>title = ''A'', changes = [''f1'', ''f2'']\<rparr>"

definition commitB :: AICommit where "commitB = \<lparr>title = ''B'', changes = [''f2'', ''f3'']\<rparr>"

definition changed :: "string \<Rightarrow> FileChange" where
  "changed p = \<lparr>path = p, state = FileState_M, diff = None\<rparr>"

definition ghostCommits :: "AICommit list" where
  "ghostCommits = [\<lparr>title = ''A'', changes = [''ghost'']\<rparr>, \<lparr>title = ''B'', changes = [''ghost'']\<rparr>]"

definition partialCommits :: "AICommit list" where
  "partialCommits = [\<lparr>title = ''A'', changes = [''f1'', ''ghost'']\<rparr>]"

definition disjointCommits :: "AICommit list" where
  "disjointCommits = [\<lparr>title = ''A'', changes = [''f1'', ''f2'']\<rparr>, \<lparr>title = ''B'', changes = [''f3'']\<rparr>]"

section \<open>The status parser\<close>

lemmas regex_defs = statusRegex_def statusRegex_matches_def status_token_def ws_1_2_def
  dot_plus_end_def is_space_def is_MARDU_def is_line_terminator_def

lemmas parser_defs = parseGitStatusOutput_def trim_def handleRenamedFilePath_def
  getFileState_def FileState_of_def FileState_M_def FileState_A_def FileState_R_def
  FileState_D_def Let_def

subsection \<open>White space and the status-line pattern\<close>

lemma dropWhile_all_space:
  "(\<forall>c\<in>set (dropWhile is_space s). is_space c) \<longleftrightarrow> (\<forall>c\<in>set s. is_space c)"
proof
  assume a: "\<forall>c\<in>set (dropWhile is_space s). is_space c"
  have "dropWhile is_space s = []"
  proof (rule ccontr)
    assume n: "dropWhile is_space s \<noteq> []"
    then have "\<not> is_space (hd (dropWhile is_space s))" by (rule hd_dropWhile)
    moreover from n have "hd (dropWhile is_space s) \<in> set (dropWhile is_space s)" by simp
    ultimately show False using a by blast
  qed
  then show "\<forall>c\<in>set s. is_space c" by (simp add: dropWhile_eq_Nil_conv)
next
  assume "\<forall>c\<in>set s. is_space c"
  then show "\<forall>c\<in>set (dropWhile is_space s). is_space c"
    by (meson set_dropWhileD)
qed

lemma trim_Nil_iff: "trim s = [] \<longleftrightarrow> (\<forall>c\<in>set s. is_space c)"
proof -
  have "trim s = [] \<longleftrightarrow> (\<forall>c\<in>set (rev (dropWhile is_space s)). is_space c)"
    unfolding trim_def by (simp only: rev_is_Nil_conv dropWhile_eq_Nil_conv)
  then show ?thesis by (simp add: dropWhile_all_space)
qed

lemma ws_star_D: "r \<in> set (ws_star l) \<Longrightarrow> \<exists>w. l = w @ r"
proof (induction l)
  case Nil then show ?case by simp
next
  case (Cons c cs)
  then show ?case
    by (auto split: if_splits intro: append_Cons [symmetric])
qed

lemma status_token_D:
  "(code, r) \<in> set (status_token s) \<Longrightarrow>
     s = code @ r \<and> code \<noteq> [] \<and> length code \<le> 2 \<and>
     (code = ''??'' \<or> (\<forall>c\<in>set code. is_MARDU c))"
  by (auto simp: status_token_def split: list.splits if_splits)

lemma ws_1_2_D: "r \<in> set (ws_1_2 s) \<Longrightarrow> \<exists>w. s = w @ r"
  by (auto simp: ws_1_2_def split: list.splits if_splits)

lemma dot_plus_end_D: "fp \<in> set (dot_plus_end r) \<Longrightarrow> fp = r \<and> fp \<noteq> []"
  by (auto simp: dot_plus_end_def split: if_splits)

lemma statusRegex_SomeD:
  assumes "statusRegex line = Some (code, fp)"
  shows "\<exists>w s. line = w @ code @ s @ fp" and "code \<noteq> []" and "length code \<le> 2"
    and "code = ''??'' \<or> (\<forall>c\<in>set code. is_MARDU c)" and "fp \<noteq> []"
proof -
  from assms obtain r1 r2 r3 where
    1: "r1 \<in> set (ws_star line)" and 2: "(code, r2) \<in> set (status_token r1)"
    and 3: "r3 \<in> set (ws_1_2 r2)" and 4: "fp \<in> set (dot_plus_end r3)"
  proof -
    from assms have "(code, fp) \<in> set (statusRegex_matches line)"
      unfolding statusRegex_def by (auto split: list.splits)
    then show ?thesis using that unfolding statusRegex_matches_def by auto
  qed
  from ws_star_D [OF 1] status_token_D [OF 2] ws_1_2_D [OF 3] dot_plus_end_D [OF 4]
  show "\<exists>w s. line = w @ code @ s @ fp" by auto
  from status_token_D [OF 2] show "code \<noteq> []" "length code \<le> 2"
    "code = ''??'' \<or> (\<forall>c\<in>set code. is_MARDU c)" by auto
  from dot_plus_end_D [OF 4] show "fp \<noteq> []" by blast
qed

lemma statusRegex_not_blank: "statusRegex line = Some (code, fp) \<Longrightarrow> trim line \<noteq> []"
proof -
  assume a: "statusRegex line = Some (code, fp)"
  from statusRegex_SomeD [OF a] obtain w s c where
    l: "line = w @ code @ s @ fp" and c: "c \<in> set code" "c = CHR ''?'' \<or> is_MARDU c"
    by (cases code) auto
  from c(2) have "\<not> is_space c" by (auto simp: is_space_def is_MARDU_def)
  with l c(1) show ?thesis by (auto simp: trim_Nil_iff)
qed



subsection \<open>The loop over the status lines\<close>

lemma parseLines_Cons:
  "parseLines d (line # ls) fc log =
     (case lineStep d line of
        Skip e \<Rightarrow> parseLines d ls fc (log @ e)
      | Push r e \<Rightarrow> parseLines d ls (fc @ [r]) (log @ e)
      | Stop n e \<Rightarrow> (ProcessExit n, log @ e))"
  by (simp add: lineStep_def Let_def split: option.splits)

lemma lineStep_Stop_iff: "(\<exists>n e. lineStep d line = Stop n e) \<longleftrightarrow> unmerged_line line"
  by (auto simp: lineStep_def unmerged_line_def split: option.splits if_splits)

lemma lineStep_Push_iff: "(\<exists>r e. lineStep d line = Push r e) \<longleftrightarrow> record_line line"
  by (auto simp: lineStep_def record_line_def split: option.splits if_splits)

lemma parseLines_no_unmerged:
  "\<forall>l\<in>set ls. \<not> unmerged_line l \<Longrightarrow>
     parseLines d ls fc log = (Return (fc @ records_of d ls), log @ effects_of d ls)"
proof (induction ls arbitrary: fc log)
  case Nil
  show ?case by (simp add: records_of_def effects_of_def)
next
  case (Cons l ls)
  from Cons.prems have nl: "\<not> unmerged_line l" and nls: "\<forall>l\<in>set ls. \<not> unmerged_line l"
    by simp_all
  note IH = Cons.IH [OF nls]
  show ?case
  proof (cases "lineStep d l")
    case (Skip e)
    then show ?thesis
      by (simp only: parseLines_Cons step.case IH) (simp add: records_of_def effects_of_def)
  next
    case (Push r e)
    then show ?thesis
      by (simp only: parseLines_Cons step.case IH) (simp add: records_of_def effects_of_def)
  next
    case (Stop n e)
    with nl lineStep_Stop_iff [of d l] show ?thesis by blast
  qed
qed

lemma parseLines_first_unmerged:
  assumes "\<forall>l\<in>set pre. \<not> unmerged_line l" and "lineStep d line = Stop n e"
  shows "parseLines d (pre @ line # post) fc log = (ProcessExit n, log @ effects_of d pre @ e)"
  using assms(1)
proof (induction pre arbitrary: fc log)
  case Nil
  show ?case using assms(2) by (simp only: append_Nil parseLines_Cons step.case) (simp add: effects_of_def)
next
  case (Cons l ls)
  from Cons.prems have nl: "\<not> unmerged_line l" and nls: "\<forall>l\<in>set ls. \<not> unmerged_line l"
    by simp_all
  note IH = Cons.IH [OF nls]
  show ?case
  proof (cases "lineStep d l")
    case (Skip e)
    then show ?thesis
      by (simp only: append_Cons parseLines_Cons step.case IH) (simp add: effects_of_def)
  next
    case (Push r e)
    then show ?thesis
      by (simp only: append_Cons parseLines_Cons step.case IH) (simp add: effects_of_def)
  next
    case (Stop n e)
    with nl lineStep_Stop_iff [of d l] show ?thesis by blast
  qed
qed

lemma length_records_of: "length (records_of d ls) = length (filter record_line ls)"
proof (induction ls)
  case Nil show ?case by (simp add: records_of_def)
next
  case (Cons l ls)
  have "length (step_records (lineStep d l)) = (if record_line l then 1 else 0)"
    using lineStep_Push_iff [of d l] by (cases "lineStep d l") auto
  with Cons show ?case by (simp add: records_of_def)
qed

lemma unparseable_effects_of:
  "filter is_unparseable_report (effects_of d ls) = map LogUnparseable (filter unparseable_line ls)"
proof (induction ls)
  case Nil show ?case by (simp add: effects_of_def)
next
  case (Cons l ls)
  have "filter is_unparseable_report (step_effects (lineStep d l)) =
          (if unparseable_line l then [LogUnparseable l] else [])"
    by (auto simp: lineStep_def unparseable_line_def split: option.splits)
  with Cons show ?case by (simp add: effects_of_def)
qed

lemma effects_of_log:
  "\<forall>l\<in>set ls. \<not> unmerged_line l \<Longrightarrow> effects_of d ls = snd (parseLines d ls [] [])"
  by (simp add: parseLines_no_unmerged)

lemma split_char_subset: "l \<in> set (split_char sep s) \<Longrightarrow> set l \<subseteq> set s"
proof (induction s arbitrary: l)
  case Nil then show ?case by simp
next
  case (Cons c cs)
  show ?case
  proof (cases "c = sep")
    case True
    with Cons.prems have "l = [] \<or> l \<in> set (split_char sep cs)" by simp
    with Cons.IH show ?thesis by auto
  next
    case False
    show ?thesis
    proof (cases "split_char sep cs")
      case Nil
      with False Cons.prems show ?thesis by simp
    next
      case (Cons w ws)
      with False Cons.prems have "l = c # w \<or> l \<in> set ws" by simp
      moreover have "set w \<subseteq> set cs" using Cons.IH [of w] Cons by simp
      moreover have "l \<in> set ws \<Longrightarrow> set l \<subseteq> set cs" using Cons.IH [of l] Cons by simp
      ultimately show ?thesis by auto
    qed
  qed
qed

lemma or_nonzero: "(a::nat) \<noteq> 0 \<Longrightarrow> a OR b \<noteq> 0"
  using or_eq_0_iff [of a b] by blast

lemma fold_or_nonzero:
  "acc \<noteq> 0 \<Longrightarrow>
     fold (\<lambda>char acc. case FileState_of char of Some stateValue \<Rightarrow> acc OR stateValue
                        | None \<Rightarrow> acc) cs (acc::nat) \<noteq> 0"
proof (induction cs arbitrary: acc)
  case Nil
  then show ?case by simp
next
  case (Cons c cs)
  have "(case FileState_of c of Some stateValue \<Rightarrow> acc OR stateValue | None \<Rightarrow> acc) \<noteq> 0"
    using or_nonzero [OF Cons.prems] Cons.prems by (cases "FileState_of c") auto
  from Cons.IH [OF this] show ?case by simp
qed

lemma getFileState_nonzero:
  assumes "statusCode \<noteq> []" and "\<forall>c\<in>set statusCode. is_MARDU c"
    and "CHR ''U'' \<notin> set statusCode"
  shows "getFileState statusCode \<noteq> 0"
proof -
  from assms(1) obtain c cs where sc: "statusCode = c # cs" by (cases statusCode) auto
  with assms(2,3) have "c = CHR ''M'' \<or> c = CHR ''A'' \<or> c = CHR ''R'' \<or> c = CHR ''D''"
    by (auto simp: is_MARDU_def)
  then have "(case FileState_of c of Some stateValue \<Rightarrow> 0 OR stateValue | None \<Rightarrow> 0) \<noteq> (0::nat)"
    by (auto simp: FileState_of_def FileState_M_def FileState_A_def FileState_R_def
        FileState_D_def)
  then show ?thesis
    unfolding getFileState_def sc fold_simps by (rule fold_or_nonzero)
qed

lemma returns_no_unmerged:
  assumes "parseLines d ls fc log = (Return recs, log')"
  shows "\<forall>l\<in>set ls. \<not> unmerged_line l"
proof (rule ccontr)
  assume "\<not> (\<forall>l\<in>set ls. \<not> unmerged_line l)"
  then have "\<exists>l\<in>set ls. unmerged_line l" by simp
  then obtain pre l post where ls: "ls = pre @ l # post" and u: "unmerged_line l"
    and pre: "\<forall>l\<in>set pre. \<not> unmerged_line l"
    by (auto dest!: split_list_first_prop)
  from u obtain n e where "lineStep d l = Stop n e" using lineStep_Stop_iff [of d l] by blast
  from parseLines_first_unmerged [OF pre this] assms ls show False by simp
qed

lemma records_of_origin:
  assumes "r \<in> set (records_of d ls)"
  shows "\<exists>line statusCode filePath. line \<in> set ls \<and>
           statusRegex line = Some (statusCode, filePath) \<and> statusCode \<noteq> ''??'' \<and>
           CHR ''U'' \<notin> set statusCode \<and> state r = getFileState statusCode \<and>
           path r = trim filePath"
proof -
  from assms obtain line where l: "line \<in> set ls" and r: "r \<in> set (step_records (lineStep d line))"
    by (auto simp: records_of_def)
  from r show ?thesis
    using l by (cases "statusRegex line") (auto simp: lineStep_def split: if_splits)
qed

lemma blank_lines_parse:
  "\<forall>l\<in>set ls. trim l = [] \<Longrightarrow> parseLines d ls fc log = (Return fc, log)"
  by (induction ls) simp_all

subsection \<open>Evaluation on concrete status lines\<close>

lemma statusRegex_M: "statusRegex ''M  '' = Some (''M'', '' '')"
  by (simp add: regex_defs)

lemma statusRegex_M_file: "statusRegex ''M  file1.txt'' = Some (''M'', ''file1.txt'')"
  by (simp add: regex_defs)

lemma parse_M_file:
  "parseGitStatusOutput mockFileDiff ''M  file1.txt'' =
     (Return [\<lparr>path = ''file1.txt'', state = 1, diff = Some ''diff content''\<rparr>],
      [GetFileDiff ''file1.txt''])"
  by (simp add: statusRegex_M_file parser_defs is_space_def mockFileDiff_def)

lemma statusRegex_X: "statusRegex ''X  invalid-file.txt'' = None"
  by (simp add: regex_defs)

lemma statusRegex_UU: "statusRegex ''UU file2.txt'' = Some (''UU'', ''file2.txt'')"
  by (simp add: regex_defs)

lemma parse_with_unparseable:
  "parseGitStatusOutput mockFileDiff status_with_unparseable =
     (Return [\<lparr>path = ''file1.txt'', state = 1, diff = Some ''diff content''\<rparr>],
      [GetFileDiff ''file1.txt'', LogUnparseable ''X  invalid-file.txt''])"
  by (simp add: status_with_unparseable_def statusRegex_M_file statusRegex_X parser_defs
      is_space_def mockFileDiff_def)

lemma parse_with_unmerged:
  "parseGitStatusOutput mockFileDiff status_with_unmerged =
     (ProcessExit 1, [GetFileDiff ''file1.txt'', LogUnmerged ''file2.txt'', LogResolveConflict])"
  by (simp add: status_with_unmerged_def statusRegex_M_file statusRegex_UU parser_defs
      is_space_def mockFileDiff_def)

subsection \<open>Rename lines\<close>

lemma statusRegex_rename: "statusRegex ''R  a.txt -> b.txt'' = Some (''R'', ''a.txt -> b.txt'')"
  by (simp add: regex_defs)

text \<open>
  C1. For the rename line \<^verbatim>\<open>R  a.txt -> b.txt\<close> the parser requests the diff of
  \<^verbatim>\<open>b.txt\<close> and gives the record the kind Renamed, but the path of the record is the
  whole trimmed file field \<^verbatim>\<open>a.txt -> b.txt\<close>, not the destination \<^verbatim>\<open>b.txt\<close>: line 50
  stores \<^verbatim>\<open>trimmedFilePath\<close> where the parser tests expect the result of
  \<^verbatim>\<open>handleRenamedFilePath\<close>.
\<close>

theorem C1_rename_record:
  "parseGitStatusOutput getFileDiff ''R  a.txt -> b.txt'' =
     (Return [\<lparr>path = ''a.txt -> b.txt'', state = FileState_R,
               diff = getFileDiff ''b.txt''\<rparr>],
      [GetFileDiff ''b.txt''])"
  by (simp add: statusRegex_rename parser_defs is_space_def)

theorem C1_rename_record_witness:
  "parseGitStatusOutput mockFileDiff ''R  a.txt -> b.txt'' =
     (Return [\<lparr>path = ''a.txt -> b.txt'', state = 4, diff = Some ''diff content''\<rparr>],
      [GetFileDiff ''b.txt''])"
  using C1_rename_record [of mockFileDiff] by (simp add: mockFileDiff_def FileState_R_def)

subsection \<open>The records of the result\<close>

lemma statusRegex_M_one_space: "statusRegex ''M '' = None"
  by (simp add: regex_defs)

text \<open>
  C7. The kind of every record of the list that the parser returns is not zero. The path of
  a record can be empty, against the claim: in the line \<^verbatim>\<open>M\<close> followed by two spaces the
  part \<^verbatim>\<open>\s{1,2}\<close> of the pattern gives one space back to \<^verbatim>\<open>(.+)\<close>, so the line matches
  with a file field of one space and the parser returns a record whose path, the trimmed
  field, is empty. The line \<^verbatim>\<open>M\<close> followed by one space, which has no file field
  either, is reported as unparseable and gives no record.
\<close>

theorem C7_kind_nonzero_empty_path:
  "(\<forall>fileChanges log fileChange.
      parseGitStatusOutput getFileDiff statusOutput = (Return fileChanges, log) \<longrightarrow>
      fileChange \<in> set fileChanges \<longrightarrow> state fileChange \<noteq> 0)
   \<and> parseGitStatusOutput getFileDiff ''M  '' =
       (Return [\<lparr>path = [], state = FileState_M, diff = getFileDiff []\<rparr>], [GetFileDiff []])
   \<and> parseGitStatusOutput getFileDiff ''M '' = (Return [], [LogUnparseable ''M ''])"
proof (intro conjI allI impI)
  fix fileChanges log fileChange
  let ?ls = "split_char CHR 0x0A statusOutput"
  assume "parseGitStatusOutput getFileDiff statusOutput = (Return fileChanges, log)"
    and r: "fileChange \<in> set fileChanges"
  then have p: "parseLines getFileDiff ?ls [] [] = (Return fileChanges, log)"
    by (simp add: parseGitStatusOutput_def)
  from returns_no_unmerged [OF p] parseLines_no_unmerged [of ?ls getFileDiff "[]" "[]"] p
  have "fileChanges = records_of getFileDiff ?ls" by simp
  with r records_of_origin [of fileChange getFileDiff ?ls]
  obtain line statusCode filePath where m: "statusRegex line = Some (statusCode, filePath)"
    and c: "statusCode \<noteq> ''??''" "CHR ''U'' \<notin> set statusCode"
    and s: "state fileChange = getFileState statusCode"
    by blast
  from statusRegex_SomeD(2,4) [OF m] c getFileState_nonzero [of statusCode]
  have "getFileState statusCode \<noteq> 0" by blast
  with s show "state fileChange \<noteq> 0" by simp
next
  show "parseGitStatusOutput getFileDiff ''M  '' =
       (Return [\<lparr>path = [], state = FileState_M, diff = getFileDiff []\<rparr>], [GetFileDiff []])"
    by (simp add: statusRegex_M parser_defs is_space_def)
next
  show "parseGitStatusOutput getFileDiff ''M '' = (Return [], [LogUnparseable ''M ''])"
    by (simp add: statusRegex_M_one_space parser_defs is_space_def)
qed

theorem C7_kind_nonzero_empty_path_witness:
  "state \<lparr>path = ''file1.txt'', state = 1, diff = Some ''diff content''\<rparr> \<noteq> 0
   \<and> parseGitStatusOutput mockFileDiff ''M  '' =
       (Return [\<lparr>path = [], state = 1, diff = Some ''diff content''\<rparr>], [GetFileDiff []])
   \<and> parseGitStatusOutput mockFileDiff ''M '' = (Return [], [LogUnparseable ''M ''])"
proof -
  have "\<lparr>path = ''file1.txt'', state = 1, diff = Some ''diff content''\<rparr>
          \<in> set [\<lparr>path = ''file1.txt'', state = 1, diff = Some ''diff content''\<rparr>]"
    by simp
  with C7_kind_nonzero_empty_path [of mockFileDiff "''M  file1.txt''"] parse_M_file
  have "state \<lparr>path = ''file1.txt'', state = 1, diff = Some ''diff content''\<rparr> \<noteq> 0"
    by blast
  moreover from C7_kind_nonzero_empty_path [of mockFileDiff "''M  file1.txt''"]
  have "parseGitStatusOutput mockFileDiff ''M  '' =
       (Return [\<lparr>path = [], state = FileState_M, diff = mockFileDiff []\<rparr>], [GetFileDiff []])"
    and "parseGitStatusOutput mockFileDiff ''M '' = (Return [], [LogUnparseable ''M ''])"
    by blast+
  ultimately show ?thesis by (simp add: FileState_M_def mockFileDiff_def)
qed

subsection \<open>The number of records\<close>

text \<open>
  C8. Whenever the parser returns, the number of records is the number of non-blank lines
  that match the status-line pattern and whose status token is neither the untracked marker
  nor contains the unmerged letter, and the lines reported as unparseable are exactly the
  non-blank lines that do not match, in order. Lines that do not match are not fatal: the
  parser returns a list for every input without an unmerged line. An input that is empty or
  consists of white space only gives the empty list and nothing is reported.
\<close>

theorem C8_record_count:
  "(\<forall>fileChanges log.
       parseGitStatusOutput getFileDiff statusOutput = (Return fileChanges, log) \<longrightarrow>
         length fileChanges = length (filter record_line (split_char CHR 0x0A statusOutput)) \<and>
         filter is_unparseable_report log =
           map LogUnparseable (filter unparseable_line (split_char CHR 0x0A statusOutput)))
   \<and> ((\<forall>line\<in>set (split_char CHR 0x0A statusOutput). \<not> unmerged_line line) \<longrightarrow>
         (\<exists>fileChanges log.
            parseGitStatusOutput getFileDiff statusOutput = (Return fileChanges, log)))
   \<and> ((\<forall>c\<in>set statusOutput. is_space c) \<longrightarrow>
         parseGitStatusOutput getFileDiff statusOutput = (Return [], []))"
proof (intro conjI allI impI)
  let ?ls = "split_char CHR 0x0A statusOutput"
  fix fileChanges log
  assume "parseGitStatusOutput getFileDiff statusOutput = (Return fileChanges, log)"
  then have p: "parseLines getFileDiff ?ls [] [] = (Return fileChanges, log)"
    by (simp add: parseGitStatusOutput_def)
  from returns_no_unmerged [OF p] parseLines_no_unmerged [of ?ls getFileDiff "[]" "[]"] p
  have r: "fileChanges = records_of getFileDiff ?ls" and e: "log = effects_of getFileDiff ?ls"
    by simp_all
  show "length fileChanges = length (filter record_line ?ls)"
    unfolding r by (rule length_records_of)
  show "filter is_unparseable_report log = map LogUnparseable (filter unparseable_line ?ls)"
    unfolding e by (rule unparseable_effects_of)
next
  assume "\<forall>line\<in>set (split_char CHR 0x0A statusOutput). \<not> unmerged_line line"
  then show "\<exists>fileChanges log.
      parseGitStatusOutput getFileDiff statusOutput = (Return fileChanges, log)"
    by (simp add: parseGitStatusOutput_def parseLines_no_unmerged)
next
  assume a: "\<forall>c\<in>set statusOutput. is_space c"
  have "\<forall>l\<in>set (split_char CHR 0x0A statusOutput). trim l = []"
    using a split_char_subset [of _ "CHR 0x0A" statusOutput] by (auto simp: trim_Nil_iff)
  then show "parseGitStatusOutput getFileDiff statusOutput = (Return [], [])"
    by (simp add: parseGitStatusOutput_def blank_lines_parse)
qed

theorem C8_record_count_witness:
  "length [\<lparr>path = ''file1.txt'', state = 1, diff = Some ''diff content''\<rparr>] =
     length (filter record_line (split_char CHR 0x0A status_with_unparseable)) \<and>
   filter is_unparseable_report
     [GetFileDiff ''file1.txt'', LogUnparseable ''X  invalid-file.txt''] =
     map LogUnparseable (filter unparseable_line (split_char CHR 0x0A status_with_unparseable)) \<and>
   (\<exists>fileChanges log.
      parseGitStatusOutput mockFileDiff status_with_unparseable = (Return fileChanges, log)) \<and>
   parseGitStatusOutput mockFileDiff [CHR 0x20, CHR 0x0A, CHR 0x09] = (Return [], [])"
proof -
  have u: "\<forall>line\<in>set (split_char CHR 0x0A status_with_unparseable). \<not> unmerged_line line"
    by (simp add: status_with_unparseable_def unmerged_line_def statusRegex_M_file
        statusRegex_X)
  have w: "\<forall>c\<in>set [CHR 0x20, CHR 0x0A, CHR 0x09]. is_space c"
    by (simp add: is_space_def)
  from C8_record_count [of mockFileDiff status_with_unparseable] parse_with_unparseable u
    C8_record_count [of mockFileDiff "[CHR 0x20, CHR 0x0A, CHR 0x09]"] w
  show ?thesis by blast
qed

subsection \<open>Unmerged files\<close>

text \<open>
  C9. If some line of the input matches the pattern with a status token that contains the
  letter U, the parser ends the process with exit code 1 and returns no list. What is logged
  is what the lines before the first unmerged line log, followed by the report of the
  conflict; the lines after it are not processed: whatever they are, the outcome and the log
  are the same.
\<close>

theorem C9_unmerged_exit:
  assumes "line \<in> set (split_char CHR 0x0A statusOutput)"
    and "statusRegex line = Some (statusCode, filePath)"
    and "CHR ''U'' \<in> set statusCode"
  shows "\<exists>before unmerged after code fname.
           split_char CHR 0x0A statusOutput = before @ unmerged # after \<and>
           (\<forall>l\<in>set before. \<not> unmerged_line l) \<and>
           statusRegex unmerged = Some (code, fname) \<and> CHR ''U'' \<in> set code \<and>
           parseGitStatusOutput getFileDiff statusOutput =
             (ProcessExit 1,
              snd (parseLines getFileDiff before [] []) @ [LogUnmerged fname, LogResolveConflict]) \<and>
           (\<forall>others. parseLines getFileDiff (before @ unmerged # others) [] [] =
              parseGitStatusOutput getFileDiff statusOutput)"
proof -
  let ?ls = "split_char CHR 0x0A statusOutput"
  from assms(2,3) statusRegex_not_blank [OF assms(2)] have "unmerged_line line"
    by (auto simp: unmerged_line_def)
  with assms(1) have "\<exists>l\<in>set ?ls. unmerged_line l" by blast
  then obtain before unmerged after where ls: "?ls = before @ unmerged # after"
    and u: "unmerged_line unmerged" and b: "\<forall>l\<in>set before. \<not> unmerged_line l"
    by (auto dest!: split_list_first_prop)
  from u obtain code fname where m: "statusRegex unmerged = Some (code, fname)"
    and c: "CHR ''U'' \<in> set code" and s: "lineStep getFileDiff unmerged = Stop 1 [LogUnmerged fname, LogResolveConflict]"
    by (auto simp: unmerged_line_def lineStep_def split: option.splits)
  have e: "effects_of getFileDiff before = snd (parseLines getFileDiff before [] [])"
    using b by (rule effects_of_log)
  have "\<And>others. parseLines getFileDiff (before @ unmerged # others) [] [] =
     (ProcessExit 1, snd (parseLines getFileDiff before [] []) @ [LogUnmerged fname, LogResolveConflict])"
    using parseLines_first_unmerged [OF b s, of _ "[]" "[]"] e by simp
  with ls m c b show ?thesis
    unfolding parseGitStatusOutput_def by (intro exI [of _ before] exI [of _ unmerged] exI [of _ after] exI [of _ code] exI [of _ fname]) simp
qed

theorem C9_unmerged_exit_witness:
  "\<exists>before unmerged after code fname.
     split_char CHR 0x0A status_with_unmerged = before @ unmerged # after \<and>
     (\<forall>l\<in>set before. \<not> unmerged_line l) \<and>
     statusRegex unmerged = Some (code, fname) \<and> CHR ''U'' \<in> set code \<and>
     parseGitStatusOutput mockFileDiff status_with_unmerged =
       (ProcessExit 1,
        snd (parseLines mockFileDiff before [] []) @ [LogUnmerged fname, LogResolveConflict]) \<and>
     (\<forall>others. parseLines mockFileDiff (before @ unmerged # others) [] [] =
        parseGitStatusOutput mockFileDiff status_with_unmerged)"
  by (rule C9_unmerged_exit [of "''UU file2.txt''" status_with_unmerged "''UU''" "''file2.txt''"])
    (simp_all add: status_with_unmerged_def statusRegex_UU)


section \<open>The validator\<close>

subsection \<open>Duplicates, by index and by recursion\<close>

lemma indexOf_notin: "x \<notin> set xs \<Longrightarrow> indexOf xs x = - 1"
  by (induction xs) (auto simp: Let_def)

lemma indexOf_in: "x \<in> set xs \<Longrightarrow> 0 \<le> indexOf xs x \<and> indexOf xs x < int (length xs)"
  by (induction xs) (auto simp: Let_def)

lemma indexOf_append:
  "indexOf (pre @ ys) x =
     (if x \<in> set pre then indexOf pre x
      else if indexOf ys x < 0 then - 1 else int (length pre) + indexOf ys x)"
proof (induction pre)
  case Nil
  show ?case
  proof (cases "x \<in> set ys")
    case True with indexOf_in [of x ys] show ?thesis by simp
  next
    case False with indexOf_notin [of x ys] show ?thesis by simp
  qed
next
  case (Cons p pre)
  show ?case
  proof (cases "x \<in> set pre")
    case True
    with indexOf_in [of x pre] Cons show ?thesis by (simp add: Let_def)
  next
    case False
    with Cons show ?thesis by (simp add: Let_def)
  qed
qed

lemma indexOf_first: "indexOf (pre @ x # xs) x = int (length pre) \<longleftrightarrow> x \<notin> set pre"
  using indexOf_in [of x pre] by (auto simp: indexOf_append)

lemma filter_indexed_offset:
  "map fst (filter (\<lambda>(x, index). indexOf (pre @ xs) x \<noteq> int index)
             (zip xs [length pre..<length pre + length xs])) =
   later_occurrences pre xs"
proof (induction xs arbitrary: pre)
  case Nil
  show ?case by simp
next
  case (Cons x xs)
  have u: "[length pre..<length pre + length (x # xs)] =
             length pre # [Suc (length pre)..<Suc (length pre) + length xs]"
    by (simp add: upt_conv_Cons del: upt_Suc)
  have IH: "map fst (filter (\<lambda>(y, index). indexOf (pre @ x # xs) y \<noteq> int index)
                      (zip xs [Suc (length pre)..<Suc (length pre) + length xs])) =
            later_occurrences (pre @ [x]) xs"
    using Cons.IH [of "pre @ [x]"] by simp
  show ?case
    unfolding u using IH indexOf_first [of pre x xs] by (simp del: upt_Suc)
qed

lemma duplicates_later_occurrences:
  "filter_indexed (\<lambda>file index. indexOf xs file \<noteq> int index) xs = later_occurrences [] xs"
  using filter_indexed_offset [of "[]" xs] by (simp add: filter_indexed_def)

lemma set_later_occurrences:
  "set (later_occurrences seen xs) = {x \<in> set xs. x \<in> set seen \<or> 1 < count_list xs x}"
proof (induction xs arbitrary: seen)
  case Nil
  show ?case by simp
next
  case (Cons x xs)
  have "\<And>y. y \<in> set xs \<longleftrightarrow> 0 < count_list xs y"
    using count_list_0_iff [of xs] by (simp add: neq0_conv [symmetric] del: neq0_conv)
  then show ?case by (auto simp: Cons.IH)
qed

lemma distinct_count_list: "distinct xs \<longleftrightarrow> (\<forall>x. count_list xs x \<le> 1)"
proof (induction xs)
  case Nil show ?case by simp
next
  case (Cons a xs)
  show ?case
  proof
    assume d: "distinct (a # xs)"
    then have "count_list xs a = 0" by (simp add: count_list_0_iff)
    with d Cons show "\<forall>x. count_list (a # xs) x \<le> 1" by simp
  next
    assume c: "\<forall>x. count_list (a # xs) x \<le> 1"
    then have "count_list (a # xs) a \<le> 1" by blast
    then have "a \<notin> set xs" by (simp add: count_list_0_iff)
    moreover have "\<forall>x. count_list xs x \<le> 1"
    proof
      fix x from c have "count_list (a # xs) x \<le> 1" by blast
      then show "count_list xs x \<le> 1" by (simp split: if_splits)
    qed
    ultimately show "distinct (a # xs)" using Cons by simp
  qed
qed

lemma newSet_fold_set:
  "set (fold (\<lambda>x s. if x \<in> set s then s else s @ [x]) xs acc) = set acc \<union> set xs"
  by (induction xs arbitrary: acc) auto

lemma newSet_fold_distinct:
  "distinct acc \<Longrightarrow> distinct (fold (\<lambda>x s. if x \<in> set s then s else s @ [x]) xs acc)"
  by (induction xs arbitrary: acc) auto

lemma set_newSet [simp]: "set (newSet xs) = set xs"
  by (simp add: newSet_def newSet_fold_set)

lemma distinct_newSet [simp]: "distinct (newSet xs)"
  by (simp add: newSet_def newSet_fold_distinct)

lemma newSet_Nil_iff [simp]: "newSet xs = [] \<longleftrightarrow> xs = []"
  using set_newSet [of xs] by (metis set_empty)

lemma duplicates_Nil_iff:
  "filter_indexed (\<lambda>file index. indexOf xs file \<noteq> int index) xs = [] \<longleftrightarrow> distinct xs"
proof -
  have "later_occurrences [] xs = [] \<longleftrightarrow> set (later_occurrences [] xs) = {}" by simp
  also have "\<dots> \<longleftrightarrow> (\<forall>x. count_list xs x \<le> 1)"
  proof -
    have "\<And>x. 1 < count_list xs x \<Longrightarrow> x \<in> set xs"
      using count_list_0_iff [of xs] by (metis not_one_less_zero)
    then show ?thesis by (auto simp: set_later_occurrences not_le [symmetric])
  qed
  finally show ?thesis by (simp add: duplicates_later_occurrences distinct_count_list)
qed

lemma set_duplicates:
  "set (filter_indexed (\<lambda>file index. indexOf xs file \<noteq> int index) xs) =
     {x. 1 < count_list xs x}"
proof -
  have "\<And>x. 1 < count_list xs x \<Longrightarrow> x \<in> set xs"
    using count_list_0_iff [of xs] by (metis not_one_less_zero)
  then show ?thesis by (auto simp: duplicates_later_occurrences set_later_occurrences)
qed

lemma newSet_Nil: "newSet [] = []"
  by (simp add: newSet_def)

lemma validate_fields:
  "duplicateFiles (validateAIOutput G L) =
     newSet (filter_indexed (\<lambda>file index. indexOf (allChanges G) file \<noteq> int index)
               (allChanges G))"
  "missingFiles (validateAIOutput G L) = filter (\<lambda>p. p \<notin> set (allChanges G)) (map path L)"
  "invalidFiles (validateAIOutput G L) =
     newSet (filter (\<lambda>file. file \<notin> set (map path L)) (allChanges G))"
  "valid (validateAIOutput G L) \<longleftrightarrow>
     filter_indexed (\<lambda>file index. indexOf (allChanges G) file \<noteq> int index) (allChanges G) = [] \<and>
     filter (\<lambda>p. p \<notin> set (allChanges G)) (map path L) = [] \<and>
     filter (\<lambda>file. file \<notin> set (map path L)) (allChanges G) = []"
  by (simp_all add: validateAIOutput_def allChanges_def Let_def newSet_Nil)

lemma validate_duplicateFiles:
  "set (duplicateFiles (validateAIOutput G L)) = {p. 1 < count_list (allChanges G) p}"
  "distinct (duplicateFiles (validateAIOutput G L))"
  "duplicateFiles (validateAIOutput G L) = [] \<longleftrightarrow> distinct (allChanges G)"
  by (simp_all add: validate_fields(1) set_duplicates duplicates_Nil_iff)

lemma validate_missingFiles:
  "missingFiles (validateAIOutput G L) = filter (\<lambda>p. p \<notin> set (allChanges G)) (map path L)"
  by (rule validate_fields(2))

lemma validate_invalidFiles:
  "set (invalidFiles (validateAIOutput G L)) = set (allChanges G) - set (map path L)"
  "distinct (invalidFiles (validateAIOutput G L))"
  unfolding validate_fields(3) by auto

lemma validate_valid:
  "valid (validateAIOutput G L) \<longleftrightarrow>
     duplicateFiles (validateAIOutput G L) = [] \<and> missingFiles (validateAIOutput G L) = [] \<and>
     invalidFiles (validateAIOutput G L) = []"
  unfolding validate_fields by simp

subsection \<open>Evaluation on concrete proposals\<close>

lemma upt_4: "[0..<4] = [0, 1, 2, 3]"
  by (simp add: upt_rec)

lemma validate_scenario:
  "validateAIOutput [commitA, commitB] [changed ''f1'', changed ''f2'', changed ''f3''] =
     \<lparr>valid = False, duplicateFiles = [''f2''], missingFiles = [], invalidFiles = []\<rparr>"
  by (simp add: validateAIOutput_def filter_indexed_def newSet_def Let_def commitA_def
      commitB_def changed_def upt_4)

lemma repair_scenario:
  "filesToCommit [commitA, commitB]
     \<lparr>valid = False, duplicateFiles = [''f2''], missingFiles = [], invalidFiles = []\<rparr> =
   [\<lparr>title = ''A'', changes = [''f1'']\<rparr>, \<lparr>title = ''B'', changes = [''f2'', ''f3'']\<rparr>]"
  by (simp add: filesToCommit_def resolveDuplicates_def removeInvalid_def commitA_def
      commitB_def numeral_2_eq_2)

lemma upt_2: "[0..<2] = [0, 1]"
  by (simp add: upt_rec)

lemma upt_3: "[0..<3] = [0, 1, 2]"
  by (simp add: upt_rec)

lemmas validate_eval = validateAIOutput_def filter_indexed_def newSet_def Let_def changed_def

lemma validate_ghost:
  "validateAIOutput ghostCommits [changed ''f1''] =
     \<lparr>valid = False, duplicateFiles = [''ghost''], missingFiles = [''f1''],
      invalidFiles = [''ghost'']\<rparr>"
  by (simp add: validate_eval ghostCommits_def upt_2)

lemma validate_partial:
  "validateAIOutput partialCommits [changed ''f1'', changed ''f2''] =
     \<lparr>valid = False, duplicateFiles = [], missingFiles = [''f2''], invalidFiles = [''ghost'']\<rparr>"
  by (simp add: validate_eval partialCommits_def upt_2)

lemma validate_disjoint:
  "validateAIOutput disjointCommits [changed ''f1'', changed ''f2'', changed ''f3''] =
     \<lparr>valid = True, duplicateFiles = [], missingFiles = [], invalidFiles = []\<rparr>"
  by (simp add: validate_eval disjointCommits_def upt_3)

subsection \<open>The validation result\<close>

text \<open>
  C2. The validator is a total function: it returns a result for every proposal and every
  change list. \<open>duplicateFiles\<close> has no repetition and its elements are the paths that occur
  more than once in the concatenation of the groups' changes; \<open>missingFiles\<close> is the list of
  the paths of the change list that occur nowhere in that concatenation; \<open>invalidFiles\<close> has
  no repetition and its elements are the proposed paths that are not paths of the change
  list; \<open>valid\<close> holds exactly when the three lists are empty.
\<close>

theorem C2_validation_result:
  "set (duplicateFiles (validateAIOutput G L)) = {p. 1 < count_list (allChanges G) p}
   \<and> distinct (duplicateFiles (validateAIOutput G L))
   \<and> missingFiles (validateAIOutput G L) =
       filter (\<lambda>p. p \<notin> set (allChanges G)) (map path L)
   \<and> set (invalidFiles (validateAIOutput G L)) = set (allChanges G) - set (map path L)
   \<and> distinct (invalidFiles (validateAIOutput G L))
   \<and> (valid (validateAIOutput G L) \<longleftrightarrow>
        duplicateFiles (validateAIOutput G L) = [] \<and>
        missingFiles (validateAIOutput G L) = [] \<and>
        invalidFiles (validateAIOutput G L) = [])"
  using validate_duplicateFiles(1,2) [of G L] validate_missingFiles [of G L]
    validate_invalidFiles [of G L] validate_valid [of G L]
  by (intro conjI)

theorem C2_validation_result_witness:
  "set (duplicateFiles (validateAIOutput ghostCommits [changed ''f1''])) =
     {p. 1 < count_list (allChanges ghostCommits) p}
   \<and> distinct (duplicateFiles (validateAIOutput ghostCommits [changed ''f1'']))
   \<and> missingFiles (validateAIOutput ghostCommits [changed ''f1'']) =
       filter (\<lambda>p. p \<notin> set (allChanges ghostCommits)) (map path [changed ''f1''])
   \<and> set (invalidFiles (validateAIOutput ghostCommits [changed ''f1''])) =
       set (allChanges ghostCommits) - set (map path [changed ''f1''])
   \<and> distinct (invalidFiles (validateAIOutput ghostCommits [changed ''f1'']))
   \<and> (valid (validateAIOutput ghostCommits [changed ''f1'']) \<longleftrightarrow>
        duplicateFiles (validateAIOutput ghostCommits [changed ''f1'']) = [] \<and>
        missingFiles (validateAIOutput ghostCommits [changed ''f1'']) = [] \<and>
        invalidFiles (validateAIOutput ghostCommits [changed ''f1'']) = [])"
  by (rule C2_validation_result)

text \<open>
  C5. If the validator's result is valid, the concatenation of the groups' changes has no
  path twice and its paths are exactly the paths of the change list: every path of the
  change list occurs once in it, and every other path not at all.
\<close>

theorem C5_valid_partition:
  assumes "valid (validateAIOutput G L)"
  shows "distinct (allChanges G) \<and> set (allChanges G) = set (map path L) \<and>
     (\<forall>p. count_list (allChanges G) p = (if p \<in> set (map path L) then 1 else 0))"
proof -
  from assms validate_valid [of G L]
  have d: "duplicateFiles (validateAIOutput G L) = []"
    and m: "missingFiles (validateAIOutput G L) = []"
    and i: "invalidFiles (validateAIOutput G L) = []" by simp_all
  from d have dist: "distinct (allChanges G)" by (simp add: validate_duplicateFiles(3))
  from m have "set (map path L) \<subseteq> set (allChanges G)"
    unfolding validate_missingFiles filter_empty_conv by auto
  moreover from i validate_invalidFiles(1) [of G L]
  have "set (allChanges G) \<subseteq> set (map path L)" by simp
  ultimately have eq: "set (allChanges G) = set (map path L)" by blast
  have "\<forall>p. count_list (allChanges G) p = (if p \<in> set (allChanges G) then 1 else 0)"
  proof
    fix p
    from dist have "count_list (allChanges G) p \<le> 1" by (simp add: distinct_count_list)
    moreover have "count_list (allChanges G) p = 0 \<longleftrightarrow> p \<notin> set (allChanges G)"
      by (rule count_list_0_iff)
    ultimately show "count_list (allChanges G) p = (if p \<in> set (allChanges G) then 1 else 0)"
      by (cases "p \<in> set (allChanges G)") auto
  qed
  with dist eq show ?thesis by simp
qed

theorem C5_valid_partition_witness:
  "distinct (allChanges disjointCommits) \<and>
   set (allChanges disjointCommits) = set (map path [changed ''f1'', changed ''f2'', changed ''f3''])"
proof -
  have "valid (validateAIOutput disjointCommits [changed ''f1'', changed ''f2'', changed ''f3''])"
    by (simp add: validate_disjoint)
  from C5_valid_partition [OF this] show ?thesis by blast
qed

section \<open>The repair\<close>

subsection \<open>filterChanges\<close>

lemma fst_filterChanges_Cons:
  "fst (filterChanges dups c (x # xs)) =
     (if x \<notin> set dups then x # fst (filterChanges dups c xs)
      else if x \<in> set c then fst (filterChanges dups c xs)
      else x # fst (filterChanges dups (c @ [x]) xs))"
  by (simp add: case_prod_unfold)

lemma snd_filterChanges_Cons:
  "snd (filterChanges dups c (x # xs)) =
     (if x \<notin> set dups then snd (filterChanges dups c xs)
      else if x \<in> set c then snd (filterChanges dups c xs)
      else snd (filterChanges dups (c @ [x]) xs))"
  by (simp add: case_prod_unfold)

declare filterChanges.simps(2) [simp del]

lemma filterChanges_subseq: "subseq (fst (filterChanges dups c xs)) xs"
  by (induction xs arbitrary: c) (auto simp: fst_filterChanges_Cons intro: list_emb_Cons)

lemma filterChanges_committed:
  "set (snd (filterChanges dups c xs)) = set c \<union> (set xs \<inter> set dups)"
  by (induction xs arbitrary: c) (auto simp: snd_filterChanges_Cons)

lemma filterChanges_kept:
  "p \<in> set (fst (filterChanges dups c xs)) \<longleftrightarrow> p \<in> set xs \<and> (p \<in> set dups \<longrightarrow> p \<notin> set c)"
  by (induction xs arbitrary: c) (auto simp: fst_filterChanges_Cons)

lemma filterChanges_count_dup:
  "p \<in> set dups \<Longrightarrow>
     count_list (fst (filterChanges dups c xs)) p = (if p \<in> set xs \<and> p \<notin> set c then 1 else 0)"
  by (induction xs arbitrary: c) (auto simp: fst_filterChanges_Cons)

lemma filterChanges_count_other:
  "p \<notin> set dups \<Longrightarrow> count_list (fst (filterChanges dups c xs)) p = count_list xs p"
  by (induction xs arbitrary: c) (auto simp: fst_filterChanges_Cons)

subsection \<open>The loop, by recursion on the list\<close>

lemma fst_dedupFrom_Cons:
  "fst (dedupFrom dups c (g # gs)) =
     g\<lparr>changes := fst (filterChanges dups (snd (dedupFrom dups c gs)) (changes g))\<rparr>
       # fst (dedupFrom dups c gs)"
  by (simp add: case_prod_unfold)

lemma snd_dedupFrom_Cons:
  "snd (dedupFrom dups c (g # gs)) =
     snd (filterChanges dups (snd (dedupFrom dups c gs)) (changes g))"
  by (simp add: case_prod_unfold)

lemma dedupFrom_snoc:
  "dedupFrom dups c (A @ [g]) =
     (case filterChanges dups c (changes g) of
        (kept, c') \<Rightarrow>
          (case dedupFrom dups c' A of (A', c'') \<Rightarrow> (A' @ [g\<lparr>changes := kept\<rparr>], c'')))"
  by (induction A) (simp_all add: case_prod_unfold)

lemma length_dedupFrom: "length (fst (dedupFrom dups c A)) = length A"
  by (induction A) (simp_all add: case_prod_unfold)

lemma dedupLoop_dedupFrom:
  "dedupLoop dups (length A) (A @ P) c = fst (dedupFrom dups c A) @ P"
proof (induction A arbitrary: c P rule: rev_induct)
  case Nil
  show ?case by simp
next
  case (snoc g A)
  obtain kept c' where f: "filterChanges dups c (changes g) = (kept, c')"
    by (cases "filterChanges dups c (changes g)")
  obtain A' c'' where d: "dedupFrom dups c' A = (A', c'')" by (cases "dedupFrom dups c' A")
  have n: "((A @ [g]) @ P) ! length A = g" by simp
  have u: "((A @ [g]) @ P)[length A := g\<lparr>changes := kept\<rparr>] = A @ (g\<lparr>changes := kept\<rparr> # P)"
    by simp
  have "dedupLoop dups (Suc (length A)) ((A @ [g]) @ P) c =
          dedupLoop dups (length A) (A @ (g\<lparr>changes := kept\<rparr> # P)) c'"
    by (simp only: dedupLoop.simps n u f prod.case)
  also have "\<dots> = fst (dedupFrom dups c' A) @ (g\<lparr>changes := kept\<rparr> # P)"
    by (rule snoc.IH)
  finally show ?case by (simp add: dedupFrom_snoc f d)
qed

lemma resolveDuplicates_dedupFrom:
  "resolveDuplicates G V =
     (if duplicateFiles V = [] then G else fst (dedupFrom (duplicateFiles V) [] G))"
  using dedupLoop_dedupFrom [of "duplicateFiles V" G "[]" "[]"]
  by (simp add: resolveDuplicates_def)

declare dedupFrom.simps(2) [simp del]

lemma trimmed_group_refl: "trimmed_group g g"
  by (simp add: trimmed_group_def)

lemma trimmed_group_trans:
  "trimmed_group a b \<Longrightarrow> trimmed_group b c \<Longrightarrow> trimmed_group a c"
  unfolding trimmed_group_def using subseq_order.order_trans by auto

lemma dedupFrom_trimmed: "list_all2 trimmed_group (fst (dedupFrom dups c gs)) gs"
  by (induction gs)
     (simp_all add: fst_dedupFrom_Cons trimmed_group_def filterChanges_subseq)

lemma dedupFrom_committed:
  "set (snd (dedupFrom dups c gs)) = set c \<union> (set (allChanges gs) \<inter> set dups)"
  by (induction gs)
     (auto simp: snd_dedupFrom_Cons filterChanges_committed allChanges_def)

lemma allChanges_Cons: "allChanges (g # gs) = changes g @ allChanges gs"
  by (simp add: allChanges_def)

lemma dedupFrom_count_dup:
  "p \<in> set dups \<Longrightarrow>
     count_list (allChanges (fst (dedupFrom dups c gs))) p =
       (if p \<in> set (allChanges gs) \<and> p \<notin> set c then 1 else 0)"
proof (induction gs)
  case Nil
  show ?case by (simp add: allChanges_def)
next
  case (Cons g gs)
  show ?case
    using Cons.IH [OF Cons.prems] Cons.prems
    by (simp add: fst_dedupFrom_Cons allChanges_Cons filterChanges_count_dup dedupFrom_committed)
qed

lemma dedupFrom_count_other:
  "p \<notin> set dups \<Longrightarrow>
     count_list (allChanges (fst (dedupFrom dups c gs))) p = count_list (allChanges gs) p"
  by (induction gs)
     (simp_all add: fst_dedupFrom_Cons allChanges_Cons filterChanges_count_other allChanges_def)

lemma dedupFrom_position:
  "p \<in> set dups \<Longrightarrow> i < length gs \<Longrightarrow>
     p \<in> set (changes (fst (dedupFrom dups c gs) ! i)) \<longleftrightarrow>
       p \<in> set (changes (gs ! i)) \<and> p \<notin> set c \<and> p \<notin> set (allChanges (drop (Suc i) gs))"
proof (induction gs arbitrary: i)
  case Nil
  then show ?case by simp
next
  case (Cons g gs)
  show ?case
  proof (cases i)
    case 0
    with Cons.prems(1) show ?thesis
      by (simp add: fst_dedupFrom_Cons filterChanges_kept dedupFrom_committed)
  next
    case (Suc j)
    with Cons.prems have "j < length gs" by simp
    from Cons.IH [OF Cons.prems(1) this] Suc show ?thesis
      by (simp add: fst_dedupFrom_Cons)
  qed
qed

lemma in_allChanges_iff:
  "p \<in> set (allChanges gs) \<longleftrightarrow> (\<exists>j<length gs. p \<in> set (changes (gs ! j)))"
proof
  assume "p \<in> set (allChanges gs)"
  then obtain g where "g \<in> set gs" "p \<in> set (changes g)" by (auto simp: allChanges_def)
  then show "\<exists>j<length gs. p \<in> set (changes (gs ! j))"
    by (metis in_set_conv_nth)
next
  assume "\<exists>j<length gs. p \<in> set (changes (gs ! j))"
  then obtain j where "j < length gs" "p \<in> set (changes (gs ! j))" by blast
  then show "p \<in> set (allChanges gs)"
    unfolding allChanges_def using nth_mem [of j gs] by auto
qed

lemma in_allChanges_drop:
  "p \<in> set (allChanges (drop n gs)) \<longleftrightarrow> (\<exists>j. n \<le> j \<and> j < length gs \<and> p \<in> set (changes (gs ! j)))"
proof
  assume "p \<in> set (allChanges (drop n gs))"
  then obtain i where "i < length gs - n" "p \<in> set (changes (drop n gs ! i))"
    by (auto simp: in_allChanges_iff)
  then have "n \<le> n + i \<and> n + i < length gs \<and> p \<in> set (changes (gs ! (n + i)))" by simp
  then show "\<exists>j. n \<le> j \<and> j < length gs \<and> p \<in> set (changes (gs ! j))" by blast
next
  assume "\<exists>j. n \<le> j \<and> j < length gs \<and> p \<in> set (changes (gs ! j))"
  then obtain j where j: "n \<le> j" "j < length gs" "p \<in> set (changes (gs ! j))" by blast
  then have "j - n < length (drop n gs)" "p \<in> set (changes (drop n gs ! (j - n)))" by simp_all
  then show "p \<in> set (allChanges (drop n gs))" unfolding in_allChanges_iff by blast
qed

subsection \<open>removeInvalid\<close>

lemma removeInvalid_map:
  "removeInvalid gs V =
     map (\<lambda>commit. commit\<lparr>changes := filter (\<lambda>filePath. filePath \<notin> set (invalidFiles V))
                                       (changes commit)\<rparr>) gs"
proof (cases "invalidFiles V = []")
  case True
  then show ?thesis by (simp add: removeInvalid_def map_idI)
next
  case False
  then show ?thesis by (simp add: removeInvalid_def)
qed

lemma removeInvalid_trimmed: "list_all2 trimmed_group (removeInvalid gs V) gs"
  unfolding removeInvalid_map by (simp add: list_all2_map1 trimmed_group_def list_all2_refl)

lemma allChanges_removeInvalid:
  "allChanges (removeInvalid gs V) =
     filter (\<lambda>filePath. filePath \<notin> set (invalidFiles V)) (allChanges gs)"
  unfolding removeInvalid_map allChanges_def by (simp add: filter_concat comp_def)

lemma changes_removeInvalid_nth:
  "i < length gs \<Longrightarrow>
     changes (removeInvalid gs V ! i) =
       filter (\<lambda>filePath. filePath \<notin> set (invalidFiles V)) (changes (gs ! i))"
  unfolding removeInvalid_map by simp

subsection \<open>resolveDuplicates and filesToCommit\<close>

lemma resolveDuplicates_trimmed: "list_all2 trimmed_group (resolveDuplicates G V) G"
  by (simp add: resolveDuplicates_dedupFrom dedupFrom_trimmed list_all2_refl trimmed_group_refl)

lemma filesToCommit_trimmed: "list_all2 trimmed_group (filesToCommit G V) G"
proof (cases "valid V")
  case True
  then show ?thesis by (simp add: filesToCommit_def list_all2_refl trimmed_group_refl)
next
  case False
  have "list_all2 trimmed_group (removeInvalid (resolveDuplicates G V) V) G"
    by (rule list_all2_trans [OF trimmed_group_trans removeInvalid_trimmed
          resolveDuplicates_trimmed])
  with False show ?thesis by (simp add: filesToCommit_def)
qed

lemma length_resolveDuplicates: "length (resolveDuplicates G V) = length G"
  using resolveDuplicates_trimmed [of G V] by (rule list_all2_lengthD)

lemma length_filesToCommit: "length (filesToCommit G V) = length G"
  using filesToCommit_trimmed [of G V] by (rule list_all2_lengthD)

lemma trimmed_subset:
  assumes "list_all2 trimmed_group R G"
  shows "set (allChanges R) \<subseteq> set (allChanges G)"
proof
  fix p assume "p \<in> set (allChanges R)"
  then obtain j where j: "j < length R" "p \<in> set (changes (R ! j))"
    by (auto simp: in_allChanges_iff)
  from assms j(1) have "trimmed_group (R ! j) (G ! j)" and l: "j < length G"
    by (simp_all add: list_all2_conv_all_nth)
  then have "set (changes (R ! j)) \<subseteq> set (changes (G ! j))"
    unfolding trimmed_group_def by (auto dest: list_emb_set)
  with j l show "p \<in> set (allChanges G)" unfolding in_allChanges_iff by blast
qed

lemma resolveDuplicates_subset: "set (allChanges (resolveDuplicates G V)) \<subseteq> set (allChanges G)"
  using resolveDuplicates_trimmed by (rule trimmed_subset)

lemma filesToCommit_subset: "set (allChanges (filesToCommit G V)) \<subseteq> set (allChanges G)"
  using filesToCommit_trimmed by (rule trimmed_subset)

lemma subseq_set_subset: "subseq xs ys \<Longrightarrow> set xs \<subseteq> set ys"
  by (auto dest: list_emb_set)

lemma distinct_resolveDuplicates:
  "distinct (allChanges (resolveDuplicates G (validateAIOutput G L)))"
proof (cases "duplicateFiles (validateAIOutput G L) = []")
  case True
  then show ?thesis by (simp add: resolveDuplicates_dedupFrom validate_duplicateFiles(3))
next
  case False
  let ?dups = "duplicateFiles (validateAIOutput G L)"
  have "\<forall>p. count_list (allChanges (fst (dedupFrom ?dups [] G))) p \<le> 1"
  proof
    fix p
    show "count_list (allChanges (fst (dedupFrom ?dups [] G))) p \<le> 1"
    proof (cases "p \<in> set ?dups")
      case True
      then show ?thesis by (simp add: dedupFrom_count_dup)
    next
      case False
      then have "\<not> 1 < count_list (allChanges G) p" by (simp add: validate_duplicateFiles(1))
      with False show ?thesis by (simp add: dedupFrom_count_other)
    qed
  qed
  with False show ?thesis by (simp add: resolveDuplicates_dedupFrom distinct_count_list)
qed

lemma filesToCommit_distinct:
  "distinct (allChanges (filesToCommit G (validateAIOutput G L)))"
proof (cases "valid (validateAIOutput G L)")
  case True
  then have "duplicateFiles (validateAIOutput G L) = []" by (simp add: validate_valid)
  with True show ?thesis by (simp add: filesToCommit_def validate_duplicateFiles(3))
next
  case False
  then show ?thesis
    by (simp add: filesToCommit_def allChanges_removeInvalid distinct_resolveDuplicates)
qed

lemma filesToCommit_known:
  "set (allChanges (filesToCommit G (validateAIOutput G L))) \<subseteq> set (map path L)"
proof (cases "valid (validateAIOutput G L)")
  case True
  then have "invalidFiles (validateAIOutput G L) = []" by (simp add: validate_valid)
  with validate_invalidFiles(1) [of G L] True show ?thesis by (simp add: filesToCommit_def)
next
  case False
  let ?V = "validateAIOutput G L"
  have "set (allChanges (resolveDuplicates G ?V)) \<subseteq> set (allChanges G)"
    by (rule resolveDuplicates_subset)
  with False show ?thesis
    by (auto simp: filesToCommit_def allChanges_removeInvalid validate_invalidFiles(1))
qed

lemma count_list_filter:
  "count_list (filter P xs) x = (if P x then count_list xs x else 0)"
  by (induction xs) auto

subsection \<open>What the repair leaves untouched\<close>

text \<open>
  C10. The repair keeps the number of groups, their order and their titles (also as the
  titles of the commits made), and inserts no path: the changes of each repaired group are
  a subsequence of the changes of the original group, so the paths left keep their order;
  a group that loses all its paths stays in the list.
\<close>

theorem C10_repair_frame:
  "length (filesToCommit G V) = length G
   \<and> map title (filesToCommit G V) = map title G
   \<and> map fst (commitChanges G V) = map title G
   \<and> (\<forall>i<length G. subseq (changes (filesToCommit G V ! i)) (changes (G ! i)))
   \<and> (\<forall>i<length G. set (changes (filesToCommit G V ! i)) \<subseteq> set (changes (G ! i)))"
proof -
  have t: "list_all2 trimmed_group (filesToCommit G V) G" by (rule filesToCommit_trimmed)
  then have l: "length (filesToCommit G V) = length G" by (rule list_all2_lengthD)
  from t have n: "\<forall>i<length G. trimmed_group (filesToCommit G V ! i) (G ! i)"
    by (simp add: list_all2_conv_all_nth)
  from n l have m: "map title (filesToCommit G V) = map title G"
    by (auto simp: list_eq_iff_nth_eq trimmed_group_def)
  from n have s: "\<forall>i<length G. subseq (changes (filesToCommit G V ! i)) (changes (G ! i))"
    by (simp add: trimmed_group_def)
  then have "\<forall>i<length G. set (changes (filesToCommit G V ! i)) \<subseteq> set (changes (G ! i))"
    using subseq_set_subset by blast
  with l m s show ?thesis by (simp add: commitChanges_def comp_def)
qed

theorem C10_repair_frame_witness:
  "length (filesToCommit ghostCommits (validateAIOutput ghostCommits [changed ''f1''])) = 2
   \<and> map title (filesToCommit ghostCommits (validateAIOutput ghostCommits [changed ''f1''])) =
       [''A'', ''B'']
   \<and> subseq (changes (filesToCommit ghostCommits
         (validateAIOutput ghostCommits [changed ''f1'']) ! 0)) [''ghost'']"
proof -
  let ?V = "validateAIOutput ghostCommits [changed ''f1'']"
  have 0: "0 < length ghostCommits" by (simp add: ghostCommits_def)
  from C10_repair_frame [of ghostCommits ?V]
  have l: "length (filesToCommit ghostCommits ?V) = length ghostCommits"
    and t: "map title (filesToCommit ghostCommits ?V) = map title ghostCommits"
    and s: "\<forall>i<length ghostCommits.
           subseq (changes (filesToCommit ghostCommits ?V ! i)) (changes (ghostCommits ! i))"
    by blast+
  from s 0 have "subseq (changes (filesToCommit ghostCommits ?V ! 0)) (changes (ghostCommits ! 0))"
    by blast
  with l t show ?thesis by (simp add: ghostCommits_def)
qed

subsection \<open>Invalid and missing files\<close>

text \<open>
  C6. For a validation result that satisfies its invariant (valid exactly when the three
  lists are empty), no path flagged invalid is left in any group after the repair. For any
  validation result, the repair adds no path, so a missing file that is in no group before
  the repair is in no group after it; for the result of the validator, where the missing
  files are in no group, they are in no group after the repair.
\<close>

theorem C6_invalid_removed:
  assumes "valid V \<longleftrightarrow> duplicateFiles V = [] \<and> missingFiles V = [] \<and> invalidFiles V = []"
  shows "(\<forall>commit\<in>set (filesToCommit G V). \<forall>p\<in>set (invalidFiles V). p \<notin> set (changes commit))
   \<and> set (allChanges (filesToCommit G V)) \<subseteq> set (allChanges G)
   \<and> (\<forall>p\<in>set (missingFiles V).
         p \<notin> set (allChanges G) \<longrightarrow> p \<notin> set (allChanges (filesToCommit G V)))
   \<and> (\<forall>L. V = validateAIOutput G L \<longrightarrow>
         (\<forall>p\<in>set (missingFiles V). p \<notin> set (allChanges (filesToCommit G V))))"
proof (intro conjI)
  show "\<forall>commit\<in>set (filesToCommit G V). \<forall>p\<in>set (invalidFiles V). p \<notin> set (changes commit)"
  proof (cases "invalidFiles V = []")
    case True
    then show ?thesis by simp
  next
    case False
    with assms have "\<not> valid V" by simp
    then have "filesToCommit G V = removeInvalid (resolveDuplicates G V) V"
      by (simp add: filesToCommit_def)
    then show ?thesis by (auto simp: removeInvalid_map)
  qed
  show s: "set (allChanges (filesToCommit G V)) \<subseteq> set (allChanges G)"
    by (rule filesToCommit_subset)
  from s show "\<forall>p\<in>set (missingFiles V).
      p \<notin> set (allChanges G) \<longrightarrow> p \<notin> set (allChanges (filesToCommit G V))" by blast
  from s show "\<forall>L. V = validateAIOutput G L \<longrightarrow>
      (\<forall>p\<in>set (missingFiles V). p \<notin> set (allChanges (filesToCommit G V)))"
    by (auto simp: validate_missingFiles)
qed

theorem C6_invalid_removed_witness:
  "''ghost'' \<notin> set (allChanges (filesToCommit partialCommits
       (validateAIOutput partialCommits [changed ''f1'', changed ''f2''])))
   \<and> ''f2'' \<notin> set (allChanges (filesToCommit partialCommits
       (validateAIOutput partialCommits [changed ''f1'', changed ''f2''])))"
proof -
  let ?L = "[changed ''f1'', changed ''f2'']"
  let ?V = "validateAIOutput partialCommits ?L"
  have wf: "valid ?V \<longleftrightarrow> duplicateFiles ?V = [] \<and> missingFiles ?V = [] \<and> invalidFiles ?V = []"
    by (simp add: validate_partial)
  have i: "''ghost'' \<in> set (invalidFiles ?V)" and m: "''f2'' \<in> set (missingFiles ?V)"
    by (simp_all add: validate_partial)
  from C6_invalid_removed [OF wf, of partialCommits]
  have a: "\<forall>commit\<in>set (filesToCommit partialCommits ?V).
             \<forall>p\<in>set (invalidFiles ?V). p \<notin> set (changes commit)"
    and b: "\<forall>L. ?V = validateAIOutput partialCommits L \<longrightarrow>
             (\<forall>p\<in>set (missingFiles ?V). p \<notin> set (allChanges (filesToCommit partialCommits ?V)))"
    by blast+
  from a i have "''ghost'' \<notin> set (allChanges (filesToCommit partialCommits ?V))"
    unfolding allChanges_def by auto
  moreover from b m have "''f2'' \<notin> set (allChanges (filesToCommit partialCommits ?V))"
    by blast
  ultimately show ?thesis by simp
qed

subsection \<open>Idempotence\<close>

text \<open>
  C4. The repair is idempotent: repairing the repaired groups, with the validation of the
  repaired groups against the same change list, leaves them as they are.
\<close>

theorem C4_repair_idempotent:
  "filesToCommit (filesToCommit G (validateAIOutput G L))
     (validateAIOutput (filesToCommit G (validateAIOutput G L)) L) =
   filesToCommit G (validateAIOutput G L)"
proof -
  let ?R = "filesToCommit G (validateAIOutput G L)"
  have d: "duplicateFiles (validateAIOutput ?R L) = []"
    by (simp add: validate_duplicateFiles(3) filesToCommit_distinct)
  have "set (invalidFiles (validateAIOutput ?R L)) = {}"
    using filesToCommit_known [of G L] by (simp add: validate_invalidFiles(1))
  then have i: "invalidFiles (validateAIOutput ?R L) = []" by simp
  show ?thesis
    by (simp add: filesToCommit_def [of ?R] resolveDuplicates_def removeInvalid_def d i)
qed

theorem C4_repair_idempotent_witness:
  "filesToCommit (filesToCommit ghostCommits (validateAIOutput ghostCommits [changed ''f1'']))
     (validateAIOutput
        (filesToCommit ghostCommits (validateAIOutput ghostCommits [changed ''f1'']))
        [changed ''f1'']) =
   filesToCommit ghostCommits (validateAIOutput ghostCommits [changed ''f1''])"
  by (rule C4_repair_idempotent)

subsection \<open>Duplicate paths\<close>

text \<open>
  C3 (as amended). Let \<open>p\<close> be a duplicate path of the validator's result and \<open>k\<close> the
  position of the last group that names \<open>p\<close>. The resolution of duplicates, which visits
  the groups from the last to the first, leaves exactly one occurrence of \<open>p\<close>, in group
  \<open>k\<close>, and none in any other group. If \<open>p\<close> is a path of the change list, the same
  holds after the whole repair; if it is not, the removal of invalid files takes this
  occurrence away too and \<open>p\<close> is left in no group. In the scenario with the groups A
  (f1, f2) and B (f2, f3) over the files f1, f2, f3 the repair gives A (f1) and B (f2, f3).
\<close>

theorem C3_duplicate_resolution:
  assumes "p \<in> set (duplicateFiles (validateAIOutput G L))"
    and "k < length G" and "p \<in> set (changes (G ! k))"
    and "\<forall>j. k < j \<and> j < length G \<longrightarrow> p \<notin> set (changes (G ! j))"
  shows
    "count_list (allChanges (resolveDuplicates G (validateAIOutput G L))) p = 1
     \<and> p \<in> set (changes (resolveDuplicates G (validateAIOutput G L) ! k))
     \<and> (\<forall>i<length G. i \<noteq> k \<longrightarrow>
           p \<notin> set (changes (resolveDuplicates G (validateAIOutput G L) ! i)))
     \<and> (p \<in> set (map path L) \<longrightarrow>
           count_list (allChanges (filesToCommit G (validateAIOutput G L))) p = 1
           \<and> p \<in> set (changes (filesToCommit G (validateAIOutput G L) ! k))
           \<and> (\<forall>i<length G. i \<noteq> k \<longrightarrow>
                 p \<notin> set (changes (filesToCommit G (validateAIOutput G L) ! i))))
     \<and> (p \<notin> set (map path L) \<longrightarrow>
           p \<notin> set (allChanges (filesToCommit G (validateAIOutput G L))))
     \<and> filesToCommit [commitA, commitB]
          (validateAIOutput [commitA, commitB] [changed ''f1'', changed ''f2'', changed ''f3'']) =
        [\<lparr>title = ''A'', changes = [''f1'']\<rparr>, \<lparr>title = ''B'', changes = [''f2'', ''f3'']\<rparr>]"
proof -
  let ?V = "validateAIOutput G L"
  let ?D = "resolveDuplicates G ?V"
  let ?R = "filesToCommit G ?V"
  from assms(1) have ne: "duplicateFiles ?V \<noteq> []" by auto
  then have nv: "\<not> valid ?V" by (simp add: validate_valid)
  from ne have D: "?D = fst (dedupFrom (duplicateFiles ?V) [] G)"
    by (simp add: resolveDuplicates_dedupFrom)
  from nv have R: "?R = removeInvalid ?D ?V" by (simp add: filesToCommit_def)
  from assms(2,3) have pG: "p \<in> set (allChanges G)" unfolding in_allChanges_iff by blast
  have pos: "p \<in> set (changes (?D ! i)) \<longleftrightarrow> i = k" if "i < length G" for i
  proof -
    have "p \<in> set (changes (?D ! i)) \<longleftrightarrow>
            p \<in> set (changes (G ! i)) \<and>
            \<not> (\<exists>j. Suc i \<le> j \<and> j < length G \<and> p \<in> set (changes (G ! j)))"
      unfolding D using dedupFrom_position [OF assms(1) that, of "[]"]
      by (simp add: in_allChanges_drop)
    also have "\<dots> \<longleftrightarrow> i = k"
    proof
      assume a: "p \<in> set (changes (G ! i)) \<and>
            \<not> (\<exists>j. Suc i \<le> j \<and> j < length G \<and> p \<in> set (changes (G ! j)))"
      show "i = k"
      proof (rule ccontr)
        assume "i \<noteq> k"
        then consider "i < k" | "k < i" by arith
        then show False
        proof cases
          case 1 with a assms(2,3) show False by (auto simp: Suc_le_eq)
        next
          case 2 with a assms(4) that show False by blast
        qed
      qed
    next
      assume "i = k"
      with assms(3,4) show "p \<in> set (changes (G ! i)) \<and>
            \<not> (\<exists>j. Suc i \<le> j \<and> j < length G \<and> p \<in> set (changes (G ! j)))"
        by (auto simp: Suc_le_eq)
    qed
    finally show ?thesis .
  qed
  have c1: "count_list (allChanges ?D) p = 1"
    unfolding D using dedupFrom_count_dup [OF assms(1), of "[]" G] pG by simp
  have k1: "p \<in> set (changes (?D ! k))" using pos [OF assms(2)] by simp
  have o1: "\<forall>i<length G. i \<noteq> k \<longrightarrow> p \<notin> set (changes (?D ! i))" using pos by simp
  have inv: "p \<in> set (invalidFiles ?V) \<longleftrightarrow> p \<notin> set (map path L)"
    using pG by (simp add: validate_invalidFiles(1))
  have lD: "length ?D = length G" by (rule length_resolveDuplicates)
  have valid_case: "count_list (allChanges ?R) p = 1 \<and> p \<in> set (changes (?R ! k)) \<and>
            (\<forall>i<length G. i \<noteq> k \<longrightarrow> p \<notin> set (changes (?R ! i)))"
    if "p \<in> set (map path L)"
  proof -
    from that inv have ni: "p \<notin> set (invalidFiles ?V)" by simp
    have "count_list (allChanges ?R) p = 1"
      unfolding R allChanges_removeInvalid using ni c1 by (simp add: count_list_filter)
    moreover have "p \<in> set (changes (?R ! i)) \<longleftrightarrow> p \<in> set (changes (?D ! i))"
      if "i < length G" for i
      unfolding R using that lD ni by (simp add: changes_removeInvalid_nth)
    ultimately show ?thesis using k1 o1 assms(2) by simp
  qed
  have invalid_case: "p \<notin> set (allChanges ?R)" if "p \<notin> set (map path L)"
    unfolding R allChanges_removeInvalid using that inv by simp
  have scenario: "filesToCommit [commitA, commitB]
          (validateAIOutput [commitA, commitB] [changed ''f1'', changed ''f2'', changed ''f3'']) =
        [\<lparr>title = ''A'', changes = [''f1'']\<rparr>, \<lparr>title = ''B'', changes = [''f2'', ''f3'']\<rparr>]"
    by (simp only: validate_scenario repair_scenario)
  from c1 k1 o1 valid_case invalid_case scenario show ?thesis by blast
qed

text \<open>The claim as stated fails for a duplicate path that is not in the change list: it is
  flagged as duplicate and as invalid, and the repair leaves no occurrence of it.\<close>

theorem C3_invalid_duplicate_counterexample:
  "duplicateFiles (validateAIOutput ghostCommits [changed ''f1'']) = [''ghost''] \<and>
   filesToCommit ghostCommits (validateAIOutput ghostCommits [changed ''f1'']) =
     [\<lparr>title = ''A'', changes = []\<rparr>, \<lparr>title = ''B'', changes = []\<rparr>]"
  by (simp add: validate_ghost)
     (simp add: ghostCommits_def filesToCommit_def resolveDuplicates_def removeInvalid_def
        filterChanges.simps numeral_2_eq_2)

theorem C3_duplicate_resolution_witness:
  "count_list (allChanges (filesToCommit [commitA, commitB]
       (validateAIOutput [commitA, commitB] [changed ''f1'', changed ''f2'', changed ''f3''])))
     ''f2'' = 1
   \<and> ''f2'' \<in> set (changes (filesToCommit [commitA, commitB]
       (validateAIOutput [commitA, commitB] [changed ''f1'', changed ''f2'', changed ''f3'']) ! 1))
   \<and> ''f2'' \<notin> set (changes (filesToCommit [commitA, commitB]
       (validateAIOutput [commitA, commitB] [changed ''f1'', changed ''f2'', changed ''f3'']) ! 0))"
proof -
  let ?L = "[changed ''f1'', changed ''f2'', changed ''f3'']"
  have 1: "''f2'' \<in> set (duplicateFiles (validateAIOutput [commitA, commitB] ?L))"
    by (simp add: validate_scenario)
  have 2: "1 < length [commitA, commitB]" by simp
  have 3: "''f2'' \<in> set (changes ([commitA, commitB] ! 1))" by (simp add: commitB_def)
  have 4: "\<forall>j. 1 < j \<and> j < length [commitA, commitB] \<longrightarrow>
     ''f2'' \<notin> set (changes ([commitA, commitB] ! j))" by auto
  have 5: "''f2'' \<in> set (map path ?L)" by (simp add: changed_def)
  let ?R = "filesToCommit [commitA, commitB] (validateAIOutput [commitA, commitB] ?L)"
  from C3_duplicate_resolution [OF 1 2 3 4]
  have "''f2'' \<in> set (map path ?L) \<longrightarrow>
          count_list (allChanges ?R) ''f2'' = 1 \<and> ''f2'' \<in> set (changes (?R ! 1)) \<and>
          (\<forall>i<length [commitA, commitB]. i \<noteq> 1 \<longrightarrow> ''f2'' \<notin> set (changes (?R ! i)))"
    by (rule conjunct1 [OF conjunct2 [OF conjunct2 [OF conjunct2]]])
  with 5 have c: "count_list (allChanges ?R) ''f2'' = 1" and k: "''f2'' \<in> set (changes (?R ! 1))"
    and o: "\<forall>i<length [commitA, commitB]. i \<noteq> 1 \<longrightarrow> ''f2'' \<notin> set (changes (?R ! i))"
    by blast+
  have "0 < length [commitA, commitB]" "(0::nat) \<noteq> 1" by simp_all
  with o have "''f2'' \<notin> set (changes (?R ! 0))" by blast
  with c k show ?thesis by blast
qed

end
